theory Spec2Isabelle
  imports Main "HOL-Library.Sublist" "HOL-Library.Multiset"
begin

section \<open>Topology: squares, units and peers\<close>

text \<open>
  The source names a square by the two-character string \<^verbatim>\<open>r + c\<close> with \<^verbatim>\<open>r\<close> one of
  the letters \<^verbatim>\<open>'ABCDEFGHI'\<close> and \<^verbatim>\<open>c\<close> one of the characters \<^verbatim>\<open>'123456789'\<close>.
  The nine row letters are the constructors of \<open>row\<close> (\<open>RA\<close> is \<^verbatim>\<open>'A'\<close>), the nine digit
  characters the constructors of \<open>digit\<close> (\<open>D1\<close> is \<^verbatim>\<open>'1'\<close>), and the string \<^verbatim>\<open>r + c\<close> is
  the pair \<open>(r, c)\<close>. A dictionary keyed by the 81 squares (\<^verbatim>\<open>units\<close>, \<^verbatim>\<open>peers\<close>,
  \<^verbatim>\<open>values\<close>) is a total function on \<open>square\<close>, so no lookup can raise \<^verbatim>\<open>KeyError\<close>.
  A string of digit characters (a candidate domain such as \<^verbatim>\<open>'12349'\<close>) is a \<open>digit list\<close>.
\<close>

datatype row = RA | RB | RC | RD | RE | RF | RG | RH | RI
datatype digit = D1 | D2 | D3 | D4 | D5 | D6 | D7 | D8 | D9

type_synonym square = "row \<times> digit"

text \<open>The dictionary \<^verbatim>\<open>values\<close> of the exact solver: for every square its remaining digits.\<close>

type_synonym store = "square \<Rightarrow> digit list"

text \<open>\<^verbatim>\<open>[a + b for a in A for b in B]\<close>\<close>

definition cross :: "'a list \<Rightarrow> 'b list \<Rightarrow> ('a \<times> 'b) list" where
  "cross A B = concat (map (\<lambda>a. map (\<lambda>b. (a, b)) B) A)"

definition digits :: "digit list" where
  "digits = [D1, D2, D3, D4, D5, D6, D7, D8, D9]"

definition rows :: "row list" where
  "rows = [RA, RB, RC, RD, RE, RF, RG, RH, RI]"

definition cols :: "digit list" where
  "cols = digits"

definition squares :: "square list" where
  "squares = cross rows cols"

text \<open>
  The nine columns, then the nine rows, then the nine boxes, in the order of the source.
  \<^verbatim>\<open>cross(rows, c)\<close> iterates over the one-character string \<^verbatim>\<open>c\<close>, the list \<open>[c]\<close>.
\<close>

definition unitlist :: "square list list" where
  "unitlist = map (\<lambda>c. cross rows [c]) cols @ map (\<lambda>r. cross [r] cols) rows @
     concat (map (\<lambda>rs. map (\<lambda>cs. cross rs cs) [[D1, D2, D3], [D4, D5, D6], [D7, D8, D9]])
                 [[RA, RB, RC], [RD, RE, RF], [RG, RH, RI]])"

definition units :: "square \<Rightarrow> square list list" where
  "units s = filter (\<lambda>u. s \<in> set u) unitlist"

text \<open>
  \<^verbatim>\<open>peers[s]\<close> is a Python \<^verbatim>\<open>set\<close>. The order in which \<^verbatim>\<open>eliminate\<close> iterates over it is
  not fixed by the language, so the propagation functions below take that order as the
  parameter \<open>po\<close> (for every square, its peers as a list); \<open>peers_list\<close> is one such order.
\<close>

definition peers :: "square \<Rightarrow> square set" where
  "peers s = set (concat (units s)) - {s}"

definition peers_list :: "square \<Rightarrow> square list" where
  "peers_list s = filter (\<lambda>t. t \<noteq> s) (remdups (concat (units s)))"

section \<open>Constraint propagation\<close>

text \<open>
  \<^verbatim>\<open>eliminate\<close> and \<^verbatim>\<open>assign\<close> mutate the dictionary they are given and return either it or
  \<^verbatim>\<open>False\<close>. The model returns a pair: whether the returned value is the dictionary
  (\<open>True\<close>) or \<^verbatim>\<open>False\<close>, and the dictionary as the call left it, which on a contradiction
  is the partly updated one. The three loops are functions of their own, recursive with
  the two: \<open>assign_all\<close> is \<^verbatim>\<open>all(eliminate(values, s, d2) for d2 in other_values)\<close>,
  \<open>eliminate_peers\<close> is \<^verbatim>\<open>all(eliminate(values, s2, d2) for s2 in peers[s])\<close>, and
  \<open>eliminate_units\<close> is the loop \<^verbatim>\<open>for u in units[s]\<close>; each stops at the first failure.
  \<^verbatim>\<open>values[s].replace(d, '')\<close> is \<open>removeAll d (v s)\<close>, and \<^verbatim>\<open>d2 = values[s]\<close>, a string of
  length one, is its only character.
\<close>

function eliminate :: "(square \<Rightarrow> square list) \<Rightarrow> store \<Rightarrow> square \<Rightarrow> digit \<Rightarrow> bool \<times> store"
  and assign :: "(square \<Rightarrow> square list) \<Rightarrow> store \<Rightarrow> square \<Rightarrow> digit \<Rightarrow> bool \<times> store"
  and assign_all :: "(square \<Rightarrow> square list) \<Rightarrow> store \<Rightarrow> square \<Rightarrow> digit list \<Rightarrow> bool \<times> store"
  and eliminate_peers :: "(square \<Rightarrow> square list) \<Rightarrow> store \<Rightarrow> square list \<Rightarrow> digit \<Rightarrow> bool \<times> store"
  and eliminate_units :: "(square \<Rightarrow> square list) \<Rightarrow> store \<Rightarrow> square list list \<Rightarrow> digit \<Rightarrow> bool \<times> store"
where
  "eliminate po v s d =
     (if d \<notin> set (v s) then (True, v)
      else if length (removeAll d (v s)) = 0 then (False, v(s := removeAll d (v s)))
      else if length (removeAll d (v s)) = 1 then
        (case eliminate_peers po (v(s := removeAll d (v s))) (po s) (hd (removeAll d (v s))) of
           (ok, v2) \<Rightarrow> if ok then eliminate_units po v2 (units s) d else (False, v2))
      else eliminate_units po (v(s := removeAll d (v s))) (units s) d)"
| "assign po v s d = assign_all po v s (removeAll d (v s))"
| "assign_all po v s [] = (True, v)"
| "assign_all po v s (d2 # ds) =
     (case eliminate po v s d2 of
        (ok, v') \<Rightarrow> if ok then assign_all po v' s ds else (False, v'))"
| "eliminate_peers po v [] d2 = (True, v)"
| "eliminate_peers po v (s2 # ss) d2 =
     (case eliminate po v s2 d2 of
        (ok, v') \<Rightarrow> if ok then eliminate_peers po v' ss d2 else (False, v'))"
| "eliminate_units po v [] d = (True, v)"
| "eliminate_units po v (u # us) d =
     (if length (filter (\<lambda>s. d \<in> set (v s)) u) = 0 then (False, v)
      else if length (filter (\<lambda>s. d \<in> set (v s)) u) = 1 then
        (case assign po v (hd (filter (\<lambda>s. d \<in> set (v s)) u)) d of
           (ok, v') \<Rightarrow> if ok then eliminate_units po v' us d else (False, v'))
      else eliminate_units po v us d)"
  by pat_completeness auto

section \<open>Parsing a grid\<close>

datatype error = AssertionError | ValueError

text \<open>
  The digit a character stands for. The test \<^verbatim>\<open>c in digits\<close> of the source, on a single
  character, is \<open>digit_of c \<noteq> None\<close>.
\<close>

fun digit_of :: "char \<Rightarrow> digit option" where
  "digit_of c =
     (if c = CHR ''1'' then Some D1 else if c = CHR ''2'' then Some D2
      else if c = CHR ''3'' then Some D3 else if c = CHR ''4'' then Some D4
      else if c = CHR ''5'' then Some D5 else if c = CHR ''6'' then Some D6
      else if c = CHR ''7'' then Some D7 else if c = CHR ''8'' then Some D8
      else if c = CHR ''9'' then Some D9 else None)"

text \<open>
  \<^verbatim>\<open>grid_values\<close>: the characters that are digits or one of \<^verbatim>\<open>'0.'\<close> are kept, and the
  assertion \<^verbatim>\<open>len(chars) == 81\<close> raises \<^verbatim>\<open>AssertionError\<close> otherwise. The dictionary
  \<^verbatim>\<open>dict(zip(squares, chars))\<close> is the association list in the order of \<open>squares\<close>, the
  order in which \<^verbatim>\<open>.items()\<close> yields it.
\<close>

definition grid_values :: "string \<Rightarrow> error + (square \<times> char) list" where
  "grid_values grid =
     (let chars = filter (\<lambda>c. digit_of c \<noteq> None \<or> c \<in> set ''0.'') grid
      in if length chars = 81 then Inr (zip squares chars) else Inl AssertionError)"

text \<open>The loop of \<^verbatim>\<open>parse_grid\<close> over the items; \<open>None\<close> is the \<^verbatim>\<open>return False\<close>.\<close>

fun assign_items :: "(square \<Rightarrow> square list) \<Rightarrow> store \<Rightarrow> (square \<times> char) list \<Rightarrow> store option" where
  "assign_items po v [] = Some v"
| "assign_items po v ((s, c) # items) =
     (case digit_of c of
        None \<Rightarrow> assign_items po v items
      | Some d \<Rightarrow> (case assign po v s d of
           (ok, v') \<Rightarrow> if ok then assign_items po v' items else None))"

text \<open>The initial dictionary of \<^verbatim>\<open>parse_grid\<close>: every square can be any digit.\<close>

definition store0 :: store where
  "store0 = (\<lambda>s. digits)"

definition parse_grid :: "(square \<Rightarrow> square list) \<Rightarrow> string \<Rightarrow> error + store option" where
  "parse_grid po grid =
     (case grid_values grid of
        Inl e \<Rightarrow> Inl e
      | Inr items \<Rightarrow> Inr (assign_items po store0 items))"

section \<open>Search\<close>

text \<open>
  \<^verbatim>\<open>some(search(...) for d in values[s])\<close>: the first result that is a dictionary. The
  generator is lazy, so a branch after the first success is never run, and an exception
  or a branch that does not return ends the loop.
\<close>

fun some :: "('a \<Rightarrow> (error + store option) option) \<Rightarrow> 'a list \<Rightarrow> (error + store option) option" where
  "some f [] = Some (Inr None)"
| "some f (e # seq) =
     (case f e of
        None \<Rightarrow> None
      | Some (Inl err) \<Rightarrow> Some (Inl err)
      | Some (Inr None) \<Rightarrow> some f seq
      | Some (Inr (Some v)) \<Rightarrow> Some (Inr (Some v)))"

text \<open>
  \<^verbatim>\<open>min((len(values[s]), s) for s in squares if len(values[s]) > 1)\<close>: the tuples are
  compared by length first and by the name of the square second, and \<open>squares\<close> is in
  ascending order of names, so the minimum is the first candidate of least length.
\<close>

definition min_square :: "store \<Rightarrow> square list \<Rightarrow> square" where
  "min_square v cands =
     hd (filter (\<lambda>s. length (v s) = fold min (map (\<lambda>s. length (v s)) cands) (length (v (hd cands)))) cands)"

text \<open>
  \<^verbatim>\<open>search\<close> does not return on every dictionary (on a domain \<^verbatim>\<open>'11'\<close> the assignment changes
  nothing and the recursion repeats), so the model counts the nested calls: \<open>search n\<close>
  is \<open>None\<close> when more than \<open>n\<close> nested calls would be needed. \<open>Some (Inl e)\<close> is an
  exception (\<^verbatim>\<open>min\<close> of an empty sequence raises \<^verbatim>\<open>ValueError\<close>), \<open>Some (Inr None)\<close> the
  result \<^verbatim>\<open>False\<close> and \<open>Some (Inr (Some v))\<close> a dictionary. The argument \<open>None\<close> is \<^verbatim>\<open>False\<close>.
  Each branch works on \<^verbatim>\<open>values.copy()\<close>, here the unchanged \<open>v\<close>.
\<close>

lemma some_cong [fundef_cong]:
  "xs = ys \<Longrightarrow> (\<And>x. x \<in> set ys \<Longrightarrow> f x = g x) \<Longrightarrow> some f xs = some g ys"
  by (induction ys arbitrary: xs) (auto split: option.splits sum.splits)

fun search :: "nat \<Rightarrow> (square \<Rightarrow> square list) \<Rightarrow> store option \<Rightarrow> (error + store option) option" where
  "search n po None = Some (Inr None)"
| "search n po (Some v) =
     (if list_all (\<lambda>s. length (v s) = 1) squares then Some (Inr (Some v))
      else case filter (\<lambda>s. length (v s) > 1) squares of
        [] \<Rightarrow> Some (Inl ValueError)
      | c # cs \<Rightarrow>
          (case n of
             0 \<Rightarrow> None
           | Suc m \<Rightarrow>
               some (\<lambda>d. search m po
                            (case assign po v (min_square v (c # cs)) d of
                               (ok, v') \<Rightarrow> if ok then Some v' else None))
                    (v (min_square v (c # cs)))))"

definition solve :: "nat \<Rightarrow> (square \<Rightarrow> square list) \<Rightarrow> string \<Rightarrow> (error + store option) option" where
  "solve n po grid =
     (case parse_grid po grid of
        Inl e \<Rightarrow> Some (Inl e)
      | Inr values \<Rightarrow> search n po values)"

text \<open>
  \<^verbatim>\<open>solved\<close>: every unit's set of values is the set of the nine one-character strings.
\<close>

definition solved :: "store \<Rightarrow> bool" where
  "solved v = list_all (\<lambda>unit. set (map v unit) = set (map (\<lambda>d. [d]) digits)) unitlist"

section \<open>Termination of the propagation\<close>

text \<open>The measure: the total number of candidate digits over the 81 squares.\<close>

definition total_size :: "store \<Rightarrow> nat" where
  "total_size v = sum_list (map (\<lambda>s. length (v s)) squares)"

text \<open>Every domain of \<open>v'\<close> is a subsequence of the same square's domain in \<open>v\<close>.\<close>

definition shrinks :: "store \<Rightarrow> store \<Rightarrow> bool" where
  "shrinks v v' = (\<forall>t. subseq (v' t) (v t))"

text \<open>No domain is emptied by a call that succeeds.\<close>

definition keeps_nonempty :: "store \<Rightarrow> store \<Rightarrow> bool" where
  "keeps_nonempty v v' = (\<forall>t. v t \<noteq> [] \<longrightarrow> v' t \<noteq> [])"

text \<open>
  The invariant of the exact solver. A square whose domain is a single digit is
  \<open>peers_free\<close> when no peer still has that digit. \<open>settles v v'\<close>: the domains have only
  shrunk and every square that was not a single digit in \<open>v\<close> is \<open>peers_free\<close> in \<open>v'\<close>.
  \<open>covers_peers po\<close>: the order \<open>po\<close> visits every peer of every square.
\<close>

definition peers_free :: "store \<Rightarrow> square \<Rightarrow> bool" where
  "peers_free v t = (length (v t) = 1 \<longrightarrow> (\<forall>t2 \<in> peers t. hd (v t) \<notin> set (v t2)))"

definition settles :: "store \<Rightarrow> store \<Rightarrow> bool" where
  "settles v v' = (shrinks v v' \<and> (\<forall>t. length (v t) \<noteq> 1 \<longrightarrow> peers_free v' t))"

definition consistent :: "store \<Rightarrow> bool" where
  "consistent v = (\<forall>t. peers_free v t)"

definition covers_peers :: "(square \<Rightarrow> square list) \<Rightarrow> bool" where
  "covers_peers po = (\<forall>s. peers s \<subseteq> set (po s))"

lemma square_in_squares: "s \<in> set squares"
proof -
  obtain r c where s: "s = (r, c)" by (cases s)
  show ?thesis unfolding s
    by (cases r; cases c; simp add: squares_def cross_def rows_def cols_def digits_def)
qed

lemma distinct_squares: "distinct squares"
  by (simp add: squares_def cross_def rows_def cols_def digits_def)

lemma shrinks_refl: "shrinks v v"
  by (simp add: shrinks_def)

lemma shrinks_trans: "shrinks v v1 \<Longrightarrow> shrinks v1 v2 \<Longrightarrow> shrinks v v2"
  unfolding shrinks_def by (meson subseq_order.trans)

lemma shrinks_removeAll: "shrinks v (v(s := removeAll d (v s)))"
  by (simp add: shrinks_def removeAll_filter_not_eq)

lemma shrinks_total_size: "shrinks v v' \<Longrightarrow> total_size v' \<le> total_size v"
proof -
  assume sh: "shrinks v v'"
  have "length (v' s) \<le> length (v s)" for s
    using sh unfolding shrinks_def by (meson list_emb_length)
  then show ?thesis
    unfolding total_size_def by (intro sum_list_mono) simp
qed

lemma length_removeAll_less: "d \<in> set xs \<Longrightarrow> length (removeAll d xs) < length xs"
  by (induction xs) (auto simp: less_Suc_eq_le length_removeAll_less_eq)

lemma sum_list_strict_at:
  fixes f g :: "'a \<Rightarrow> nat"
  assumes "s \<in> set xs" "f s < g s" "\<And>t. f t \<le> g t"
  shows "sum_list (map f xs) < sum_list (map g xs)"
  using assms(1)
proof (induction xs)
  case Nil
  then show ?case by simp
next
  case (Cons x xs)
  have le: "sum_list (map f xs) \<le> sum_list (map g xs)"
    by (intro sum_list_mono) (simp add: assms(3))
  show ?case
  proof (cases "x = s")
    case True
    then show ?thesis using le assms(2) by simp
  next
    case False
    then have "sum_list (map f xs) < sum_list (map g xs)" using Cons by simp
    then show ?thesis using assms(3) [of x] by simp
  qed
qed

lemma total_size_removeAll:
  assumes "d \<in> set (v s)"
  shows "total_size (v(s := removeAll d (v s))) < total_size v"
proof -
  have "sum_list (map (\<lambda>t. length ((v(s := removeAll d (v s))) t)) squares)
        < sum_list (map (\<lambda>t. length (v t)) squares)"
    by (rule sum_list_strict_at [of s]) (auto simp: square_in_squares assms length_removeAll_less length_removeAll_less_eq)
  then show ?thesis by (simp add: total_size_def)
qed

lemma shrinks_dom:
  "eliminate_assign_assign_all_eliminate_peers_eliminate_units_dom (Inl (Inl (po, v, s, d)))
     \<Longrightarrow> shrinks v (snd (eliminate po v s d))"
  "eliminate_assign_assign_all_eliminate_peers_eliminate_units_dom (Inl (Inr (po, v, s, d)))
     \<Longrightarrow> shrinks v (snd (assign po v s d))"
  "eliminate_assign_assign_all_eliminate_peers_eliminate_units_dom (Inr (Inl (po, v, s, ds)))
     \<Longrightarrow> shrinks v (snd (assign_all po v s ds))"
  "eliminate_assign_assign_all_eliminate_peers_eliminate_units_dom (Inr (Inr (Inl (po, v, ss, d))))
     \<Longrightarrow> shrinks v (snd (eliminate_peers po v ss d))"
  "eliminate_assign_assign_all_eliminate_peers_eliminate_units_dom (Inr (Inr (Inr (po, v, us, d))))
     \<Longrightarrow> shrinks v (snd (eliminate_units po v us d))"
proof (induct rule: eliminate_assign_assign_all_eliminate_peers_eliminate_units.pinduct)
  case (1 po v s d)
  let ?v1 = "v(s := removeAll d (v s))"
  note sh1 = shrinks_removeAll [of v s d]
  show ?case
  proof (cases "d \<notin> set (v s)")
    case True
    then show ?thesis using 1(1) by (simp add: eliminate.psimps shrinks_refl)
  next
    case in_dom: False
    show ?thesis
    proof (cases "length (removeAll d (v s)) = 0")
      case True
      then show ?thesis using 1(1) in_dom sh1 by (simp add: eliminate.psimps fun_upd_def)
    next
      case ne: False
      show ?thesis
      proof (cases "length (removeAll d (v s)) = 1")
        case one: True
        obtain ok v2 where r: "eliminate_peers po ?v1 (po s) (hd (removeAll d (v s))) = (ok, v2)"
          by (cases "eliminate_peers po ?v1 (po s) (hd (removeAll d (v s)))")
        have "shrinks ?v1 (snd (eliminate_peers po ?v1 (po s) (hd (removeAll d (v s)))))"
          using 1(2) [OF _ ne one] in_dom by blast
        then have s12: "shrinks ?v1 v2" by (simp only: r snd_conv)
        show ?thesis
        proof (cases ok)
          case True
          have "shrinks v2 (snd (eliminate_units po v2 (units s) d))"
            using 1(3) [OF _ ne one r [symmetric] True] in_dom by blast
          then show ?thesis using 1(1) in_dom ne one r True s12 sh1
            by (simp add: eliminate.psimps) (meson shrinks_trans)
        next
          case False
          then show ?thesis using 1(1) in_dom ne one r s12 sh1
            by (simp add: eliminate.psimps) (meson shrinks_trans)
        qed
      next
        case False
        have "shrinks ?v1 (snd (eliminate_units po ?v1 (units s) d))"
          using 1(4) [OF _ ne False] in_dom by blast
        then show ?thesis using 1(1) in_dom ne False sh1
          by (simp add: eliminate.psimps) (meson shrinks_trans)
      qed
    qed
  qed
next
  case (2 po v s d)
  then show ?case by (simp add: assign.psimps)
next
  case (3 po v s)
  then show ?case by (simp add: assign_all.psimps shrinks_refl)
next
  case (4 po v s d2 ds)
  obtain ok v' where r: "eliminate po v s d2 = (ok, v')" by (cases "eliminate po v s d2")
  have s1: "shrinks v v'" using 4(2) r by simp
  show ?case
  proof (cases ok)
    case True
    have "shrinks v' (snd (assign_all po v' s ds))" using 4(3) [of ok v'] r True by simp
    then show ?thesis using 4(1) r True s1 by (simp add: assign_all.psimps) (meson shrinks_trans)
  next
    case False
    then show ?thesis using 4(1) r s1 by (simp add: assign_all.psimps)
  qed
next
  case (5 po v d2)
  then show ?case by (simp add: eliminate_peers.psimps shrinks_refl)
next
  case (6 po v s2 ss d2)
  obtain ok v' where r: "eliminate po v s2 d2 = (ok, v')" by (cases "eliminate po v s2 d2")
  have s1: "shrinks v v'" using 6(2) r by simp
  show ?case
  proof (cases ok)
    case True
    have "shrinks v' (snd (eliminate_peers po v' ss d2))" using 6(3) [of ok v'] r True by simp
    then show ?thesis using 6(1) r True s1 by (simp add: eliminate_peers.psimps) (meson shrinks_trans)
  next
    case False
    then show ?thesis using 6(1) r s1 by (simp add: eliminate_peers.psimps)
  qed
next
  case (7 po v d)
  then show ?case by (simp add: eliminate_units.psimps shrinks_refl)
next
  case (8 po v u us d)
  let ?dp = "filter (\<lambda>s. d \<in> set (v s)) u"
  show ?case
  proof (cases "length ?dp = 0")
    case True
    then show ?thesis using 8(1) by (simp add: eliminate_units.psimps shrinks_refl)
  next
    case ne: False
    show ?thesis
    proof (cases "length ?dp = 1")
      case one: True
      obtain ok v' where r: "assign po v (hd ?dp) d = (ok, v')" by (cases "assign po v (hd ?dp) d")
      have s1: "shrinks v v'" using 8(2) ne one r by simp
      show ?thesis
      proof (cases ok)
        case True
        have "shrinks v' (snd (eliminate_units po v' us d))" using 8(3) [of ok v'] ne one r True by simp
        then show ?thesis using 8(1) ne one r True s1
          by (simp add: eliminate_units.psimps) (meson shrinks_trans)
      next
        case False
        then show ?thesis using 8(1) ne one r s1 by (simp add: eliminate_units.psimps)
      qed
    next
      case False
      have "shrinks v (snd (eliminate_units po v us d))" using 8(4) ne False by simp
      then show ?thesis using 8(1) ne False by (simp add: eliminate_units.psimps)
    qed
  qed
qed

lemma total_size_dom:
  "eliminate_assign_assign_all_eliminate_peers_eliminate_units_dom (Inl (Inl (po, v, s, d)))
     \<Longrightarrow> (ok, y) = eliminate po v s d \<Longrightarrow> total_size y \<le> total_size v"
  "eliminate_assign_assign_all_eliminate_peers_eliminate_units_dom (Inl (Inr (po, v, s, d)))
     \<Longrightarrow> (ok, y) = assign po v s d \<Longrightarrow> total_size y \<le> total_size v"
  "eliminate_assign_assign_all_eliminate_peers_eliminate_units_dom (Inr (Inr (Inl (po, v, ss, d))))
     \<Longrightarrow> (ok, y) = eliminate_peers po v ss d \<Longrightarrow> total_size y \<le> total_size v"
  using shrinks_dom(1) [of po v s d] shrinks_dom(2) [of po v s d] shrinks_dom(4) [of po v ss d]
    shrinks_total_size [of v y]
  by (metis snd_conv)+

termination eliminate
apply (relation "measures
    [\<lambda>x. case x of
       Inl (Inl (po, v, s, d)) \<Rightarrow> total_size v
     | Inl (Inr (po, v, s, d)) \<Rightarrow> total_size v
     | Inr (Inl (po, v, s, ds)) \<Rightarrow> total_size v
     | Inr (Inr (Inl (po, v, ss, d))) \<Rightarrow> total_size v
     | Inr (Inr (Inr (po, v, us, d))) \<Rightarrow> total_size v,
     \<lambda>x. case x of
       Inl (Inl (po, v, s, d)) \<Rightarrow> 1
     | Inl (Inr (po, v, s, d)) \<Rightarrow> 3
     | Inr (Inl (po, v, s, ds)) \<Rightarrow> 2
     | Inr (Inr (Inl (po, v, ss, d))) \<Rightarrow> 2
     | Inr (Inr (Inr (po, v, us, d))) \<Rightarrow> 4,
     \<lambda>x. case x of
       Inl (Inl (po, v, s, d)) \<Rightarrow> 0
     | Inl (Inr (po, v, s, d)) \<Rightarrow> 0
     | Inr (Inl (po, v, s, ds)) \<Rightarrow> length ds
     | Inr (Inr (Inl (po, v, ss, d))) \<Rightarrow> length ss
     | Inr (Inr (Inr (po, v, us, d))) \<Rightarrow> length us]")
  apply (simp_all add: total_size_removeAll)
  subgoal for po v s d x y
    using total_size_dom(3) [of po "v(s := removeAll d (v s))" "po s" "hd (removeAll d (v s))" True y]
      total_size_removeAll [of d v s]
    by simp
  subgoal for po v s d2 x y
    using total_size_dom(1) [of po v s d2 True y] by auto
  subgoal for po v s2 d2 x y
    using total_size_dom(1) [of po v s2 d2 True y] by auto
  subgoal for po v u d x y
    using total_size_dom(2) [of po v "hd (filter (\<lambda>s. d \<in> set (v s)) u)" d True y] by auto
  done

text \<open>
  The defining equations are unfolded one call at a time in the proofs below.
\<close>

declare eliminate.simps [simp del] assign.simps [simp del] eliminate_units.simps [simp del]

section \<open>Properties of the propagation\<close>

text \<open>
  One induction over the five functions serves every property that composes along the
  calls: a relation \<open>R\<close> between the dictionary before and after, reflexive and
  transitive, that holds across the removal of one digit. With \<open>c\<close> true the property
  is shown for every result, with \<open>c\<close> false for the successful ones only; \<open>G\<close> is a
  condition on the order of the peers.
\<close>


lemma propagation_rel:
  fixes R :: "store \<Rightarrow> store \<Rightarrow> bool" and c :: bool and G :: "(square \<Rightarrow> square list) \<Rightarrow> bool"
  assumes refl: "\<And>v. R v v"
    and trans: "\<And>v v1 v2. R v v1 \<Longrightarrow> R v1 v2 \<Longrightarrow> R v v2"
    and step: "\<And>v s d. d \<in> set (v s) \<Longrightarrow> length (removeAll d (v s)) \<noteq> 1
                 \<Longrightarrow> c \<or> removeAll d (v s) \<noteq> [] \<Longrightarrow> R v (v(s := removeAll d (v s)))"
    and single: "\<And>po v s d. G po \<Longrightarrow> d \<in> set (v s) \<Longrightarrow> length (removeAll d (v s)) = 1
                 \<Longrightarrow> c \<or> fst (eliminate_peers po (v(s := removeAll d (v s))) (po s) (hd (removeAll d (v s))))
                 \<Longrightarrow> R (v(s := removeAll d (v s)))
                       (snd (eliminate_peers po (v(s := removeAll d (v s))) (po s) (hd (removeAll d (v s)))))
                 \<Longrightarrow> R v (snd (eliminate_peers po (v(s := removeAll d (v s))) (po s) (hd (removeAll d (v s)))))"
  shows "G po \<Longrightarrow> c \<or> fst (eliminate po v s d) \<Longrightarrow> R v (snd (eliminate po v s d))"
    and "G po \<Longrightarrow> c \<or> fst (assign po v s d) \<Longrightarrow> R v (snd (assign po v s d))"
    and "G po \<Longrightarrow> c \<or> fst (assign_all po v s ds) \<Longrightarrow> R v (snd (assign_all po v s ds))"
    and "G po \<Longrightarrow> c \<or> fst (eliminate_peers po v ss d) \<Longrightarrow> R v (snd (eliminate_peers po v ss d))"
    and "G po \<Longrightarrow> c \<or> fst (eliminate_units po v us d) \<Longrightarrow> R v (snd (eliminate_units po v us d))"
proof (induct po v s d and po v s d and po v s ds and po v ss d and po v us d
    rule: eliminate_assign_assign_all_eliminate_peers_eliminate_units.induct)
  case (1 po v s d)
  let ?v1 = "v(s := removeAll d (v s))"
  let ?p = "eliminate_peers po ?v1 (po s) (hd (removeAll d (v s)))"
  note unf = eliminate.simps [of po v s d]
  show ?case
  proof (cases "d \<notin> set (v s)")
    case True
    then show ?thesis by (simp add: refl unf)
  next
    case in_dom: False
    show ?thesis
    proof (cases "length (removeAll d (v s)) = 0")
      case True
      then have "c" using "1.prems"(2) in_dom by (simp add: unf)
      then have r: "R v ?v1" using step [of d v s] in_dom True by simp
      have res: "eliminate po v s d = (False, ?v1)" using in_dom True by (simp add: unf)
      show ?thesis by (simp only: res snd_conv) (rule r)
    next
      case ne: False
      show ?thesis
      proof (cases "length (removeAll d (v s)) = 1")
        case one: True
        have res: "eliminate po v s d = (if fst ?p then eliminate_units po (snd ?p) (units s) d else (False, snd ?p))"
          using in_dom ne one by (simp add: case_prod_beta unf)
        have cp: "c \<or> fst ?p" using "1.prems"(2) res by (auto split: if_splits)
        have ind: "d \<in> set (v s)" using in_dom by simp
        have rp: "R ?v1 (snd ?p)" using "1.hyps"(1) [OF _ ne one "1.prems"(1) cp] in_dom by blast
        have r1: "R v (snd ?p)" by (rule single [OF "1.prems"(1) ind one cp rp])
        show ?thesis
        proof (cases "fst ?p")
          case True
          have cu: "c \<or> fst (eliminate_units po (snd ?p) (units s) d)" using "1.prems"(2) res True by simp
          have r2: "R (snd ?p) (snd (eliminate_units po (snd ?p) (units s) d))"
            by (rule "1.hyps"(2) [OF in_dom ne one prod.collapse True "1.prems"(1) cu])
          show ?thesis using trans [OF r1 r2] True by (simp only: res if_True)
        next
          case False
          then show ?thesis using r1 by (simp only: res if_False snd_conv)
        qed
      next
        case False
        have res: "eliminate po v s d = eliminate_units po ?v1 (units s) d"
          using in_dom ne False by (simp add: unf)
        have r1: "R v ?v1" using step [of d v s] in_dom ne False by simp
        have cu: "c \<or> fst (eliminate_units po ?v1 (units s) d)"
          using "1.prems"(2) unfolding res .
        have r2: "R ?v1 (snd (eliminate_units po ?v1 (units s) d))"
          by (rule "1.hyps"(3) [OF in_dom ne False "1.prems"(1) cu])
        show ?thesis using trans [OF r1 r2] by (simp only: res)
      qed
    qed
  qed
next
  case (2 po v s d)
  then show ?case by (simp add: assign.simps)
next
  case (3 po v s)
  then show ?case by (simp add: refl)
next
  case (4 po v s d2 ds)
  let ?e = "eliminate po v s d2"
  have res: "assign_all po v s (d2 # ds) = (if fst ?e then assign_all po (snd ?e) s ds else (False, snd ?e))"
    by (simp add: case_prod_beta)
  have ce: "c \<or> fst ?e" using "4.prems"(2) res by (auto split: if_splits)
  have r1: "R v (snd ?e)" using "4.hyps"(1) [OF "4.prems"(1) ce] .
  show ?case
  proof (cases "fst ?e")
    case True
    have cu: "c \<or> fst (assign_all po (snd ?e) s ds)" using "4.prems"(2) res True by simp
    have r2: "R (snd ?e) (snd (assign_all po (snd ?e) s ds))"
      by (rule "4.hyps"(2) [OF prod.collapse True "4.prems"(1) cu])
    show ?thesis using trans [OF r1 r2] True by (simp only: res if_True)
  next
    case False
    then show ?thesis using r1 by (simp only: res if_False snd_conv)
  qed
next
  case (5 po v d2)
  then show ?case by (simp add: refl)
next
  case (6 po v s2 ss d2)
  let ?e = "eliminate po v s2 d2"
  have res: "eliminate_peers po v (s2 # ss) d2 = (if fst ?e then eliminate_peers po (snd ?e) ss d2 else (False, snd ?e))"
    by (simp add: case_prod_beta)
  have ce: "c \<or> fst ?e" using "6.prems"(2) res by (auto split: if_splits)
  have r1: "R v (snd ?e)" using "6.hyps"(1) [OF "6.prems"(1) ce] .
  show ?case
  proof (cases "fst ?e")
    case True
    have cu: "c \<or> fst (eliminate_peers po (snd ?e) ss d2)" using "6.prems"(2) res True by simp
    have r2: "R (snd ?e) (snd (eliminate_peers po (snd ?e) ss d2))"
      by (rule "6.hyps"(2) [OF prod.collapse True "6.prems"(1) cu])
    show ?thesis using trans [OF r1 r2] True by (simp only: res if_True)
  next
    case False
    then show ?thesis using r1 by (simp only: res if_False snd_conv)
  qed
next
  case (7 po v d)
  then show ?case by (simp add: refl eliminate_units.simps)
next
  case (8 po v u us d)
  let ?dp = "filter (\<lambda>s. d \<in> set (v s)) u"
  let ?a = "assign po v (hd ?dp) d"
  show ?case
  proof (cases "length ?dp = 0")
    case True
    then show ?thesis by (simp add: refl eliminate_units.simps)
  next
    case ne: False
    show ?thesis
    proof (cases "length ?dp = 1")
      case one: True
      have res: "eliminate_units po v (u # us) d = (if fst ?a then eliminate_units po (snd ?a) us d else (False, snd ?a))"
        using ne one by (simp add: case_prod_beta eliminate_units.simps)
      have ca: "c \<or> fst ?a" using "8.prems"(2) res by (auto split: if_splits)
      have r1: "R v (snd ?a)" using "8.hyps"(1) [OF ne one "8.prems"(1) ca] .
      show ?thesis
      proof (cases "fst ?a")
        case True
        have cu: "c \<or> fst (eliminate_units po (snd ?a) us d)" using "8.prems"(2) res True by simp
        have r2: "R (snd ?a) (snd (eliminate_units po (snd ?a) us d))"
          by (rule "8.hyps"(2) [OF ne one prod.collapse True "8.prems"(1) cu])
        show ?thesis using trans [OF r1 r2] True by (simp only: res if_True)
      next
        case False
        then show ?thesis using r1 by (simp only: res if_False snd_conv)
      qed
    next
      case False
      have res: "eliminate_units po v (u # us) d = eliminate_units po v us d"
        using ne False by (simp add: eliminate_units.simps)
      then show ?thesis using "8.hyps"(3) [OF ne False "8.prems"(1)] "8.prems"(2) by simp
    qed
  qed
qed

lemma subseq_set_subset: "subseq xs ys \<Longrightarrow> set xs \<subseteq> set ys"
  by (induction rule: list_emb.induct) auto

lemma subseq_distinct: "subseq xs ys \<Longrightarrow> distinct ys \<Longrightarrow> distinct xs"
proof (induction rule: list_emb.induct)
  case (list_emb_Nil ys)
  then show ?case by simp
next
  case (list_emb_Cons xs ys y)
  then show ?case by simp
next
  case (list_emb_Cons2 x y xs ys)
  then show ?case using subseq_set_subset [of xs ys] by auto
qed

lemma shrinks_set:
  assumes "shrinks v v'"
  shows "set (v' t) \<subseteq> set (v t)"
proof -
  have "subseq (v' t) (v t)" using assms unfolding shrinks_def by (rule spec)
  then show ?thesis by (rule subseq_set_subset)
qed

lemma shrinks_all:
  "shrinks v (snd (eliminate po v s d))"
  "shrinks v (snd (assign po v s d))"
  "shrinks v (snd (assign_all po v s ds))"
  "shrinks v (snd (eliminate_peers po v ss d))"
  "shrinks v (snd (eliminate_units po v us d))"
proof -
  have step: "d \<in> set (v s) \<Longrightarrow> length (removeAll d (v s)) \<noteq> 1 \<Longrightarrow> True \<or> removeAll d (v s) \<noteq> []
      \<Longrightarrow> shrinks v (v(s := removeAll d (v s)))" for v s d
    by (rule shrinks_removeAll)
  have single: "True \<Longrightarrow> d \<in> set (v s) \<Longrightarrow> length (removeAll d (v s)) = 1
      \<Longrightarrow> True \<or> fst (eliminate_peers po (v(s := removeAll d (v s))) (po s) (hd (removeAll d (v s))))
      \<Longrightarrow> shrinks (v(s := removeAll d (v s)))
            (snd (eliminate_peers po (v(s := removeAll d (v s))) (po s) (hd (removeAll d (v s)))))
      \<Longrightarrow> shrinks v (snd (eliminate_peers po (v(s := removeAll d (v s))) (po s) (hd (removeAll d (v s)))))"
    for po v s d
    by (rule shrinks_trans [OF shrinks_removeAll])
  note r = propagation_rel [where R = shrinks and c = True and G = "\<lambda>_. True",
      OF shrinks_refl shrinks_trans step single]
  show "shrinks v (snd (eliminate po v s d))" by (rule r(1)) simp_all
  show "shrinks v (snd (assign po v s d))" by (rule r(2)) simp_all
  show "shrinks v (snd (assign_all po v s ds))" by (rule r(3)) simp_all
  show "shrinks v (snd (eliminate_peers po v ss d))" by (rule r(4)) simp_all
  show "shrinks v (snd (eliminate_units po v us d))" by (rule r(5)) simp_all
qed

lemma eliminate_shrinks_step:
  assumes "d \<in> set (v s)"
  shows "shrinks (v(s := removeAll d (v s))) (snd (eliminate po v s d))"
proof -
  let ?v1 = "v(s := removeAll d (v s))"
  let ?p = "eliminate_peers po ?v1 (po s) (hd (removeAll d (v s)))"
  note unf = eliminate.simps [of po v s d]
  consider (zero) "length (removeAll d (v s)) = 0"
    | (one) "length (removeAll d (v s)) = 1"
    | (many) "length (removeAll d (v s)) \<noteq> 0" "length (removeAll d (v s)) \<noteq> 1"
    by blast
  then show ?thesis
  proof cases
    case zero
    then have "eliminate po v s d = (False, ?v1)" using assms by (simp add: unf)
    then show ?thesis by (simp only: snd_conv shrinks_refl)
  next
    case one
    then have res: "eliminate po v s d = (if fst ?p then eliminate_units po (snd ?p) (units s) d else (False, snd ?p))"
      using assms by (simp add: unf case_prod_beta)
    have r1: "shrinks ?v1 (snd ?p)" by (rule shrinks_all(4))
    have r2: "shrinks (snd ?p) (snd (eliminate_units po (snd ?p) (units s) d))" by (rule shrinks_all(5))
    show ?thesis
    proof (cases "fst ?p")
      case True
      then show ?thesis using shrinks_trans [OF r1 r2] by (simp only: res if_True)
    next
      case False
      then show ?thesis using r1 by (simp only: res if_False snd_conv)
    qed
  next
    case many
    then have res: "eliminate po v s d = eliminate_units po ?v1 (units s) d"
      using assms by (simp add: unf)
    show ?thesis by (simp only: res) (rule shrinks_all(5))
  qed
qed

lemma eliminate_total_size_less:
  assumes "d \<in> set (v s)"
  shows "total_size (snd (eliminate po v s d)) < total_size v"
  using shrinks_total_size [OF eliminate_shrinks_step [where d = d and v = v and s = s and po = po]]
    total_size_removeAll [where d = d and v = v and s = s] assms
  by simp

lemma eliminate_removes: "d \<notin> set (snd (eliminate po v s d) s)"
proof (cases "d \<in> set (v s)")
  case True
  have "set (snd (eliminate po v s d) s) \<subseteq> set ((v(s := removeAll d (v s))) s)"
    using True by (intro shrinks_set eliminate_shrinks_step)
  then show ?thesis by auto
next
  case False
  then show ?thesis by (simp add: eliminate.simps [of po v s d])
qed

lemma assign_all_removes:
  "fst (assign_all po v s ds) \<Longrightarrow> d2 \<in> set ds \<Longrightarrow> d2 \<notin> set (snd (assign_all po v s ds) s)"
proof (induction ds arbitrary: v)
  case Nil
  then show ?case by simp
next
  case (Cons a ds)
  let ?e = "eliminate po v s a"
  have res: "assign_all po v s (a # ds) = (if fst ?e then assign_all po (snd ?e) s ds else (False, snd ?e))"
    by (simp add: case_prod_beta)
  have ok: "fst ?e" using Cons.prems(1) unfolding res by (cases "fst ?e") simp_all
  then have res': "assign_all po v s (a # ds) = assign_all po (snd ?e) s ds" using res by simp
  show ?case
  proof (cases "d2 \<in> set ds")
    case True
    then show ?thesis using Cons.IH [of "snd ?e"] Cons.prems(1) unfolding res' by simp
  next
    case False
    then have "d2 = a" using Cons.prems(2) by simp
    then have "d2 \<notin> set (snd ?e s)" using eliminate_removes [of a po v s] by simp
    moreover have "set (snd (assign_all po (snd ?e) s ds) s) \<subseteq> set (snd ?e s)"
      by (rule shrinks_set [OF shrinks_all(3)])
    ultimately show ?thesis unfolding res' by auto
  qed
qed

lemma eliminate_peers_removes:
  "fst (eliminate_peers po v ss d) \<Longrightarrow> s2 \<in> set ss \<Longrightarrow> d \<notin> set (snd (eliminate_peers po v ss d) s2)"
proof (induction ss arbitrary: v)
  case Nil
  then show ?case by simp
next
  case (Cons a ss)
  let ?e = "eliminate po v a d"
  have res: "eliminate_peers po v (a # ss) d = (if fst ?e then eliminate_peers po (snd ?e) ss d else (False, snd ?e))"
    by (simp add: case_prod_beta)
  have ok: "fst ?e" using Cons.prems(1) unfolding res by (cases "fst ?e") simp_all
  then have res': "eliminate_peers po v (a # ss) d = eliminate_peers po (snd ?e) ss d" using res by simp
  show ?case
  proof (cases "s2 \<in> set ss")
    case True
    then show ?thesis using Cons.IH [of "snd ?e"] Cons.prems(1) unfolding res' by simp
  next
    case False
    then have "s2 = a" using Cons.prems(2) by simp
    then have "d \<notin> set (snd ?e s2)" using eliminate_removes [of d po v a] by simp
    moreover have "set (snd (eliminate_peers po (snd ?e) ss d) s2) \<subseteq> set (snd ?e s2)"
      by (rule shrinks_set [OF shrinks_all(4)])
    ultimately show ?thesis unfolding res' by auto
  qed
qed

lemma keeps_nonempty_all:
  "fst (eliminate po v s d) \<Longrightarrow> keeps_nonempty v (snd (eliminate po v s d))"
  "fst (assign po v s d) \<Longrightarrow> keeps_nonempty v (snd (assign po v s d))"
  "fst (assign_all po v s ds) \<Longrightarrow> keeps_nonempty v (snd (assign_all po v s ds))"
  "fst (eliminate_peers po v ss d) \<Longrightarrow> keeps_nonempty v (snd (eliminate_peers po v ss d))"
  "fst (eliminate_units po v us d) \<Longrightarrow> keeps_nonempty v (snd (eliminate_units po v us d))"
proof -
  have refl: "keeps_nonempty v v" for v by (simp add: keeps_nonempty_def)
  have trans: "keeps_nonempty v v1 \<Longrightarrow> keeps_nonempty v1 v2 \<Longrightarrow> keeps_nonempty v v2" for v v1 v2
    by (simp add: keeps_nonempty_def)
  have step: "d \<in> set (v s) \<Longrightarrow> length (removeAll d (v s)) \<noteq> 1 \<Longrightarrow> False \<or> removeAll d (v s) \<noteq> []
      \<Longrightarrow> keeps_nonempty v (v(s := removeAll d (v s)))" for v s d
    by (simp add: keeps_nonempty_def)
  have one: "length (removeAll d (v s)) = 1 \<Longrightarrow> keeps_nonempty v (v(s := removeAll d (v s)))" for v s d
    by (auto simp: keeps_nonempty_def)
  have single: "True \<Longrightarrow> d \<in> set (v s) \<Longrightarrow> length (removeAll d (v s)) = 1
      \<Longrightarrow> False \<or> fst (eliminate_peers po (v(s := removeAll d (v s))) (po s) (hd (removeAll d (v s))))
      \<Longrightarrow> keeps_nonempty (v(s := removeAll d (v s)))
            (snd (eliminate_peers po (v(s := removeAll d (v s))) (po s) (hd (removeAll d (v s)))))
      \<Longrightarrow> keeps_nonempty v (snd (eliminate_peers po (v(s := removeAll d (v s))) (po s) (hd (removeAll d (v s)))))"
    for po v s d
    using trans [OF one] by blast
  note r = propagation_rel [where R = keeps_nonempty and c = False and G = "\<lambda>_. True",
      OF refl trans step single]
  show "fst (eliminate po v s d) \<Longrightarrow> keeps_nonempty v (snd (eliminate po v s d))" by (rule r(1)) simp_all
  show "fst (assign po v s d) \<Longrightarrow> keeps_nonempty v (snd (assign po v s d))" by (rule r(2)) simp_all
  show "fst (assign_all po v s ds) \<Longrightarrow> keeps_nonempty v (snd (assign_all po v s ds))" by (rule r(3)) simp_all
  show "fst (eliminate_peers po v ss d) \<Longrightarrow> keeps_nonempty v (snd (eliminate_peers po v ss d))" by (rule r(4)) simp_all
  show "fst (eliminate_units po v us d) \<Longrightarrow> keeps_nonempty v (snd (eliminate_units po v us d))" by (rule r(5)) simp_all
qed

lemma assign_fixes:
  assumes ok: "fst (assign po v s d)" and ne: "v s \<noteq> []"
  shows "set (snd (assign po v s d) s) = {d}"
proof -
  let ?v' = "snd (assign po v s d)"
  have sub: "set (?v' s) \<subseteq> set (v s)" by (rule shrinks_set [OF shrinks_all(2)])
  have "d2 \<notin> set (?v' s)" if "d2 \<in> set (removeAll d (v s))" for d2
    using assign_all_removes [of po v s "removeAll d (v s)" d2] ok that by (simp add: assign.simps)
  then have "set (?v' s) \<subseteq> {d}" using sub by auto
  moreover have "?v' s \<noteq> []" using keeps_nonempty_all(2) [OF ok] ne unfolding keeps_nonempty_def by blast
  ultimately show ?thesis by (cases "?v' s") auto
qed


lemma assign_total_size_less:
  assumes "d2 \<in> set (v s)" "d2 \<noteq> d"
  shows "total_size (snd (assign po v s d)) < total_size v"
proof -
  have "d2 \<in> set (removeAll d (v s))" using assms by simp
  then obtain a ds where o: "removeAll d (v s) = a # ds"
    by (cases "removeAll d (v s)") auto
  have "a \<in> set (removeAll d (v s))" unfolding o by simp
  then have a: "a \<in> set (v s)" by simp
  let ?e = "eliminate po v s a"
  have res: "assign po v s d = (if fst ?e then assign_all po (snd ?e) s ds else (False, snd ?e))"
    by (simp add: assign.simps o case_prod_beta)
  have l: "total_size (snd ?e) < total_size v" using a by (rule eliminate_total_size_less)
  have "total_size (snd (assign_all po (snd ?e) s ds)) \<le> total_size (snd ?e)"
    by (rule shrinks_total_size [OF shrinks_all(3)])
  then show ?thesis using l by (cases "fst ?e") (simp_all add: res)
qed


section \<open>Termination measure, shrinking domains, assignment\<close>

text \<open>
  Claim C7. \<open>eliminate\<close> and \<open>assign\<close> are total: they are defined by well-founded
  recursion, and the termination proof above orders the calls by \<open>total_size\<close>, the
  total size of the domains. No call increases it, every call of \<open>eliminate\<close> that
  removes a digit (the digit is in the domain) leaves it strictly smaller, and so does
  every call of \<open>assign\<close> that has some other digit to remove.
\<close>

theorem propagation_bounded_by_total_size:
  "total_size (snd (eliminate po v s d)) \<le> total_size v
   \<and> (d \<in> set (v s) \<longrightarrow> total_size (snd (eliminate po v s d)) < total_size v)
   \<and> total_size (snd (assign po v s d)) \<le> total_size v
   \<and> ((\<exists>d2 \<in> set (v s). d2 \<noteq> d) \<longrightarrow> total_size (snd (assign po v s d)) < total_size v)"
proof -
  have "total_size (snd (eliminate po v s d)) \<le> total_size v"
    by (rule shrinks_total_size [OF shrinks_all(1)])
  moreover have "total_size (snd (assign po v s d)) \<le> total_size v"
    by (rule shrinks_total_size [OF shrinks_all(2)])
  moreover have "d \<in> set (v s) \<Longrightarrow> total_size (snd (eliminate po v s d)) < total_size v"
    by (rule eliminate_total_size_less)
  moreover have "\<exists>d2 \<in> set (v s). d2 \<noteq> d \<Longrightarrow> total_size (snd (assign po v s d)) < total_size v"
    using assign_total_size_less by blast
  ultimately show ?thesis by blast
qed

theorem propagation_bounded_by_total_size_witness:
  "D1 \<in> set (store0 (RA, D1)) \<and> (\<exists>d2 \<in> set (store0 (RA, D1)). d2 \<noteq> D1)
   \<and> total_size (snd (eliminate peers_list store0 (RA, D1) D1)) < total_size store0
   \<and> total_size (snd (assign peers_list store0 (RA, D1) D1)) < total_size store0"
proof -
  have h1: "D1 \<in> set (store0 (RA, D1))" by (simp add: store0_def digits_def)
  have h2: "\<exists>d2 \<in> set (store0 (RA, D1)). d2 \<noteq> D1" by (simp add: store0_def digits_def)
  show ?thesis
    using h1 h2 propagation_bounded_by_total_size [of peers_list store0 "(RA, D1)" D1] by blast
qed

text \<open>
  Claim C9. Domains only shrink: after a call of \<open>eliminate\<close> or of \<open>assign\<close>, whether
  it succeeded or met a contradiction, the domain of every square \<open>t\<close> is a subsequence
  of its domain before the call, so no digit is ever added back.
\<close>

theorem domains_only_shrink:
  "subseq (snd (eliminate po v s d) t) (v t) \<and> set (snd (eliminate po v s d) t) \<subseteq> set (v t)
   \<and> subseq (snd (assign po v s d) t) (v t) \<and> set (snd (assign po v s d) t) \<subseteq> set (v t)"
proof -
  have e: "subseq (snd (eliminate po v s d) t) (v t)"
    using shrinks_all(1) [where v = v and po = po and s = s and d = d] unfolding shrinks_def by (rule spec)
  have a: "subseq (snd (assign po v s d) t) (v t)"
    using shrinks_all(2) [where v = v and po = po and s = s and d = d] unfolding shrinks_def by (rule spec)
  show ?thesis using e a subseq_set_subset by blast
qed

text \<open>
  Claim C8. When the digit \<open>d\<close> is in the domain of \<open>s\<close> and \<open>assign\<close> returns the
  dictionary (not \<^verbatim>\<open>False\<close>), the domain of \<open>s\<close> in the returned dictionary holds \<open>d\<close>
  and nothing else; when the domain had no repeated digit, it is the string \<open>d\<close>.
\<close>

theorem assign_success_singleton:
  assumes "d \<in> set (v s)" and "assign po v s d = (True, v')"
  shows "set (v' s) = {d} \<and> (distinct (v s) \<longrightarrow> v' s = [d])"
proof -
  have ok: "fst (assign po v s d)" and v': "v' = snd (assign po v s d)"
    using assms(2) by simp_all
  have ne: "v s \<noteq> []" using assms(1) by auto
  have st: "set (v' s) = {d}" unfolding v' by (rule assign_fixes [OF ok ne])
  have "subseq (v' s) (v s)"
    using shrinks_all(2) [where v = v and po = po and s = s and d = d] unfolding shrinks_def v' by (rule spec)
  then have "distinct (v s) \<Longrightarrow> distinct (v' s)" by (rule subseq_distinct)
  then have "distinct (v s) \<Longrightarrow> v' s = [d]"
    using st by (cases "v' s"; cases "tl (v' s)") auto
  then show ?thesis using st by blast
qed

section \<open>The exact solver\<close>

lemma shrinks_subseq: "shrinks v v' \<Longrightarrow> subseq (v' t) (v t)"
  unfolding shrinks_def by (rule spec)

lemma peers_free_shrinks:
  assumes pf: "peers_free v t" and sh: "shrinks v v'" and l: "length (v t) = 1"
  shows "peers_free v' t"
proof -
  have "v' t = v t" if "length (v' t) = 1"
    using subseq_same_length [OF shrinks_subseq [OF sh, of t]] that l by simp
  moreover have "set (v' t2) \<subseteq> set (v t2)" for t2 by (rule shrinks_set [OF sh])
  ultimately show ?thesis using pf l unfolding peers_free_def by fastforce
qed

lemma settles_refl: "settles v v"
  by (simp add: settles_def shrinks_refl peers_free_def)

lemma settles_trans:
  assumes a: "settles v v1" and b: "settles v1 v2"
  shows "settles v v2"
proof -
  have sh: "shrinks v v2" using a b shrinks_trans unfolding settles_def by blast
  have "peers_free v2 t" if n: "length (v t) \<noteq> 1" for t
  proof (cases "length (v1 t) = 1")
    case True
    have "peers_free v1 t" using a n unfolding settles_def by blast
    then show ?thesis using peers_free_shrinks True b unfolding settles_def by blast
  next
    case False
    then show ?thesis using b unfolding settles_def by blast
  qed
  then show ?thesis using sh unfolding settles_def by blast
qed

lemma settles_step:
  assumes "length (removeAll d (v s)) \<noteq> 1"
  shows "settles v (v(s := removeAll d (v s)))"
proof -
  have "peers_free (v(s := removeAll d (v s))) t" if "length (v t) \<noteq> 1" for t
    using that assms by (cases "t = s") (simp_all add: peers_free_def)
  then show ?thesis unfolding settles_def using shrinks_removeAll by blast
qed

lemma settles_single:
  assumes cov: "covers_peers po"
    and one: "length (removeAll d (v s)) = 1"
    and ok: "fst (eliminate_peers po (v(s := removeAll d (v s))) (po s) (hd (removeAll d (v s))))"
    and st: "settles (v(s := removeAll d (v s)))
               (snd (eliminate_peers po (v(s := removeAll d (v s))) (po s) (hd (removeAll d (v s)))))"
  shows "settles v (snd (eliminate_peers po (v(s := removeAll d (v s))) (po s) (hd (removeAll d (v s)))))"
proof -
  let ?v1 = "v(s := removeAll d (v s))"
  let ?d2 = "hd (removeAll d (v s))"
  let ?v2 = "snd (eliminate_peers po ?v1 (po s) ?d2)"
  have sh12: "shrinks ?v1 ?v2" using st unfolding settles_def by blast
  have sh: "shrinks v ?v2" by (rule shrinks_trans [OF shrinks_removeAll sh12])
  have "peers_free ?v2 t" if n: "length (v t) \<noteq> 1" for t
  proof (cases "t = s")
    case False
    then have "length (?v1 t) \<noteq> 1" using n by simp
    then show ?thesis using st unfolding settles_def by blast
  next
    case True
    show ?thesis unfolding peers_free_def
    proof (intro impI ballI)
      fix t2 assume l2: "length (?v2 t) = 1" and p: "t2 \<in> peers t"
      have "length (?v1 s) = 1" using one by simp
      then have eq: "?v2 s = ?v1 s"
        using subseq_same_length [OF shrinks_subseq [OF sh12, of s]] l2 True by simp
      have "t2 \<in> set (po s)" using p cov True unfolding covers_peers_def by blast
      then have "?d2 \<notin> set (?v2 t2)" by (rule eliminate_peers_removes [OF ok])
      then show "hd (?v2 t) \<notin> set (?v2 t2)" using eq True by simp
    qed
  qed
  then show ?thesis using sh unfolding settles_def by blast
qed

lemma settles_all:
  assumes "covers_peers po"
  shows "fst (eliminate po v s d) \<Longrightarrow> settles v (snd (eliminate po v s d))"
    and "fst (assign po v s d) \<Longrightarrow> settles v (snd (assign po v s d))"
proof -
  have step: "d \<in> set (v s) \<Longrightarrow> length (removeAll d (v s)) \<noteq> 1 \<Longrightarrow> False \<or> removeAll d (v s) \<noteq> []
      \<Longrightarrow> settles v (v(s := removeAll d (v s)))" for v s d
    by (rule settles_step)
  have single: "covers_peers po \<Longrightarrow> d \<in> set (v s) \<Longrightarrow> length (removeAll d (v s)) = 1
      \<Longrightarrow> False \<or> fst (eliminate_peers po (v(s := removeAll d (v s))) (po s) (hd (removeAll d (v s))))
      \<Longrightarrow> settles (v(s := removeAll d (v s)))
            (snd (eliminate_peers po (v(s := removeAll d (v s))) (po s) (hd (removeAll d (v s)))))
      \<Longrightarrow> settles v (snd (eliminate_peers po (v(s := removeAll d (v s))) (po s) (hd (removeAll d (v s)))))"
    for po v s d
    using settles_single by blast
  note r = propagation_rel [where R = settles and c = False and G = covers_peers,
      OF settles_refl settles_trans step single]
  show "fst (eliminate po v s d) \<Longrightarrow> settles v (snd (eliminate po v s d))"
    by (rule r(1)) (use assms in simp_all)
  show "fst (assign po v s d) \<Longrightarrow> settles v (snd (assign po v s d))"
    by (rule r(2)) (use assms in simp_all)
qed

lemma consistent_settles:
  assumes c: "consistent v" and st: "settles v v'"
  shows "consistent v'"
proof -
  have "peers_free v' t" for t
  proof (cases "length (v t) = 1")
    case True
    have "peers_free v t" using c unfolding consistent_def by blast
    then show ?thesis using peers_free_shrinks True st unfolding settles_def by blast
  next
    case False
    then show ?thesis using st unfolding settles_def by blast
  qed
  then show ?thesis unfolding consistent_def by blast
qed

lemma assign_items_settles:
  "covers_peers po \<Longrightarrow> assign_items po v items = Some v' \<Longrightarrow> settles v v'"
proof (induction items arbitrary: v)
  case Nil
  then show ?case by (simp add: settles_refl)
next
  case (Cons item items)
  obtain s ch where item: "item = (s, ch)" by (cases item)
  show ?case
  proof (cases "digit_of ch")
    case None
    then have "assign_items po v items = Some v'" using Cons.prems(2) item by simp
    then show ?thesis by (rule Cons.IH [OF Cons.prems(1)])
  next
    case (Some d)
    let ?a = "assign po v s d"
    have res: "assign_items po v (item # items) = (if fst ?a then assign_items po (snd ?a) items else None)"
      using Some item by (simp add: case_prod_beta del: digit_of.simps)
    have ok: "fst ?a" using Cons.prems(2) unfolding res by (cases "fst ?a") simp_all
    then have "assign_items po (snd ?a) items = Some v'" using Cons.prems(2) unfolding res by simp
    then have "settles (snd ?a) v'" by (rule Cons.IH [OF Cons.prems(1)])
    moreover have "settles v (snd ?a)" by (rule settles_all(2) [OF Cons.prems(1) ok])
    ultimately show ?thesis using settles_trans by blast
  qed
qed

lemma some_Some:
  "some f xs = Some (Inr (Some v)) \<Longrightarrow> \<exists>x \<in> set xs. f x = Some (Inr (Some v))"
  by (induction xs) (auto split: option.splits sum.splits)

lemma search_consistent:
  "covers_peers po \<Longrightarrow> consistent v \<Longrightarrow> search n po (Some v) = Some (Inr (Some v'))
    \<Longrightarrow> consistent v' \<and> (\<forall>s. length (v' s) = 1)"
proof (induction n arbitrary: v)
  case 0
  then show ?case
    using square_in_squares by (auto simp: list_all_iff split: if_splits list.splits)
next
  case (Suc n)
  show ?case
  proof (cases "list_all (\<lambda>s. length (v s) = 1) squares")
    case True
    then show ?thesis using Suc.prems square_in_squares by (auto simp: list_all_iff)
  next
    case False
    obtain c cs where cands: "filter (\<lambda>s. length (v s) > 1) squares = c # cs"
      using Suc.prems(3) False by (cases "filter (\<lambda>s. length (v s) > 1) squares") auto
    let ?s = "min_square v (c # cs)"
    let ?f = "\<lambda>d. search n po (case assign po v ?s d of (ok, v') \<Rightarrow> if ok then Some v' else None)"
    have "some ?f (v ?s) = Some (Inr (Some v'))"
      using Suc.prems(3) False cands by simp
    then obtain d where d: "?f d = Some (Inr (Some v'))" using some_Some by fast
    let ?a = "assign po v ?s d"
    have ok: "fst ?a" using d by (cases "fst ?a") (simp_all add: case_prod_beta)
    then have sr: "search n po (Some (snd ?a)) = Some (Inr (Some v'))"
      using d by (simp add: case_prod_beta)
    have "consistent (snd ?a)"
      by (rule consistent_settles [OF Suc.prems(2) settles_all(2) [OF Suc.prems(1) ok]])
    then show ?thesis using Suc.IH [OF Suc.prems(1) _ sr] by blast
  qed
qed

lemma set_cross: "set (cross A B) = set A \<times> set B"
  by (auto simp: cross_def)

lemma row_in_rows: "r \<in> set rows"
  by (cases r) (simp_all add: rows_def)

lemma digit_in_digits: "d \<in> set digits"
  by (cases d) (simp_all add: digits_def)

lemma UNIV_digit: "(UNIV :: digit set) = set digits"
  using digit_in_digits by blast

lemma card_UNIV_digit: "card (UNIV :: digit set) = 9"
  unfolding UNIV_digit by (simp add: digits_def)

lemma unit_shape: "u \<in> set unitlist \<Longrightarrow> distinct u \<and> length u = 9"
proof -
  have "list_all (\<lambda>u. distinct u \<and> length u = 9) unitlist"
    by (simp add: unitlist_def cross_def rows_def cols_def digits_def)
  then show "u \<in> set unitlist \<Longrightarrow> distinct u \<and> length u = 9"
    by (simp add: list_all_iff)
qed

lemma same_unit_peers:
  "u \<in> set unitlist \<Longrightarrow> s \<in> set u \<Longrightarrow> t \<in> set u \<Longrightarrow> s \<noteq> t \<Longrightarrow> t \<in> peers s"
  by (auto simp: peers_def units_def)

lemma same_row_peers: "c1 \<noteq> c2 \<Longrightarrow> (r, c2) \<in> peers (r, c1)"
proof -
  assume ne: "c1 \<noteq> c2"
  have u: "cross [r] cols \<in> set unitlist"
    using row_in_rows [of r] by (simp add: unitlist_def)
  have "(r, c1) \<in> set (cross [r] cols)" "(r, c2) \<in> set (cross [r] cols)"
    using digit_in_digits by (simp_all add: set_cross cols_def)
  then show ?thesis using same_unit_peers [OF u] ne by blast
qed

lemma consistent_solved:
  assumes c: "consistent v" and one: "\<And>s. length (v s) = 1"
  shows "solved v"
proof -
  have single: "v s = [hd (v s)]" for s
    using one [of s] by (cases "v s") simp_all
  have "set (map v u) = set (map (\<lambda>d. [d]) digits)" if u: "u \<in> set unitlist" for u
  proof -
    have "inj_on (\<lambda>s. hd (v s)) (set u)"
    proof (rule inj_onI)
      fix s t assume s: "s \<in> set u" and t: "t \<in> set u" and eq: "hd (v s) = hd (v t)"
      show "s = t"
      proof (rule ccontr)
        assume "s \<noteq> t"
        then have "t \<in> peers s" using same_unit_peers [OF u s t] by blast
        then have "hd (v s) \<notin> set (v t)"
          using c one [of s] unfolding consistent_def peers_free_def by blast
        then show False using single [of t] eq by (metis list.set_intros(1))
      qed
    qed
    then have "card ((\<lambda>s. hd (v s)) ` set u) = card (set u)" by (rule card_image)
    also have "\<dots> = 9" using unit_shape [OF u] by (simp add: distinct_card)
    finally have c9: "card ((\<lambda>s. hd (v s)) ` set u) = 9" .
    have fin: "finite (UNIV :: digit set)" unfolding UNIV_digit by simp
    have "(\<lambda>s. hd (v s)) ` set u = UNIV"
      using card_UNIV_digit c9 fin by (intro card_subset_eq) simp_all
    then have "(\<lambda>d. [d]) ` ((\<lambda>s. hd (v s)) ` set u) = (\<lambda>d. [d]) ` set digits"
      using UNIV_digit by simp
    moreover have "(\<lambda>d. [d]) ` ((\<lambda>s. hd (v s)) ` set u) = v ` set u"
      using single by (auto simp: image_image intro!: image_cong)
    ultimately show ?thesis by simp
  qed
  then show ?thesis by (simp add: solved_def list_all_iff)
qed

lemma consistent_store0: "consistent store0"
  by (simp add: consistent_def peers_free_def store0_def digits_def)

text \<open>
  Claim C1. Whenever \<open>solve\<close> returns a dictionary (not \<^verbatim>\<open>False\<close>, no exception, and
  whatever depth the search needed), every one of the 27 units of that dictionary holds
  each of the nine digits: \<open>solved\<close> is true of it. The order in which the peers are
  visited is arbitrary, provided every peer is visited.
\<close>

theorem exact_solution_is_solved:
  assumes "covers_peers po" and "solve n po grid = Some (Inr (Some v))"
  shows "solved v"
proof -
  obtain parsed where p: "parse_grid po grid = Inr parsed" and s: "search n po parsed = Some (Inr (Some v))"
    using assms(2) by (auto simp: solve_def split: sum.splits)
  obtain v0 where v0: "parsed = Some v0" using s by (cases parsed) simp_all
  obtain items where "assign_items po store0 items = Some v0"
    using p v0 by (auto simp: parse_grid_def split: sum.splits)
  then have "settles store0 v0" by (rule assign_items_settles [OF assms(1)])
  then have "consistent v0" by (rule consistent_settles [OF consistent_store0])
  then have "consistent v \<and> (\<forall>s. length (v s) = 1)"
    using search_consistent [OF assms(1) _ s [unfolded v0]] by blast
  then show ?thesis using consistent_solved by blast
qed

lemma assign_items_rel:
  fixes R :: "store \<Rightarrow> store \<Rightarrow> bool"
  assumes refl: "\<And>v. R v v"
    and trans: "\<And>v v1 v2. R v v1 \<Longrightarrow> R v1 v2 \<Longrightarrow> R v v2"
    and step: "\<And>v s d. fst (assign po v s d) \<Longrightarrow> R v (snd (assign po v s d))"
  shows "assign_items po v items = Some v' \<Longrightarrow> R v v'"
proof (induction items arbitrary: v)
  case Nil
  then show ?case by (simp add: refl)
next
  case (Cons item items)
  obtain s ch where item: "item = (s, ch)" by (cases item)
  show ?case
  proof (cases "digit_of ch")
    case None
    then have "assign_items po v items = Some v'" using Cons.prems item by simp
    then show ?thesis by (rule Cons.IH)
  next
    case (Some d)
    let ?a = "assign po v s d"
    have res: "assign_items po v (item # items) = (if fst ?a then assign_items po (snd ?a) items else None)"
      using Some item by (simp add: case_prod_beta del: digit_of.simps)
    have ok: "fst ?a" using Cons.prems unfolding res by (cases "fst ?a") simp_all
    then have "assign_items po (snd ?a) items = Some v'" using Cons.prems unfolding res by simp
    then have "R (snd ?a) v'" by (rule Cons.IH)
    then show ?thesis using trans [OF step [OF ok]] by blast
  qed
qed

lemma keeps_nonempty_trans:
  "keeps_nonempty v v1 \<Longrightarrow> keeps_nonempty v1 v2 \<Longrightarrow> keeps_nonempty v v2"
  by (simp add: keeps_nonempty_def)

lemma assign_items_keeps_nonempty:
  assumes "assign_items po v items = Some v'"
  shows "keeps_nonempty v v'"
proof (rule assign_items_rel [where R = keeps_nonempty and po = po, OF _ _ _ assms])
  show "keeps_nonempty v v" for v by (simp add: keeps_nonempty_def)
  show "keeps_nonempty v v1 \<Longrightarrow> keeps_nonempty v1 v2 \<Longrightarrow> keeps_nonempty v v2" for v v1 v2
    by (rule keeps_nonempty_trans)
  show "fst (assign po v s d) \<Longrightarrow> keeps_nonempty v (snd (assign po v s d))" for v s d
    by (rule keeps_nonempty_all(2))
qed

lemma assign_items_shrinks:
  assumes "assign_items po v items = Some v'"
  shows "shrinks v v'"
proof (rule assign_items_rel [where R = shrinks and po = po, OF _ _ _ assms])
  show "shrinks v v" for v by (rule shrinks_refl)
  show "shrinks v v1 \<Longrightarrow> shrinks v1 v2 \<Longrightarrow> shrinks v v2" for v v1 v2
    by (rule shrinks_trans)
  show "fst (assign po v s d) \<Longrightarrow> shrinks v (snd (assign po v s d))" for v s d
    by (rule shrinks_all(2))
qed

lemma assign_items_fixes:
  "assign_items po v items = Some v' \<Longrightarrow> (s, ch) \<in> set items \<Longrightarrow> digit_of ch = Some d
     \<Longrightarrow> (\<And>t. v t \<noteq> []) \<Longrightarrow> set (v' s) = {d}"
proof (induction items arbitrary: v)
  case Nil
  then show ?case by simp
next
  case (Cons item items)
  obtain s0 ch0 where item: "item = (s0, ch0)" by (cases item)
  show ?case
  proof (cases "digit_of ch0")
    case None
    then have rest: "assign_items po v items = Some v'" using Cons.prems(1) item by simp
    have "(s, ch) \<in> set items" using Cons.prems(2,3) None item by auto
    then show ?thesis using Cons.IH [OF rest _ Cons.prems(3)] Cons.prems(4) by blast
  next
    case (Some d0)
    let ?a = "assign po v s0 d0"
    have res: "assign_items po v (item # items) = (if fst ?a then assign_items po (snd ?a) items else None)"
      using Some item by (simp add: case_prod_beta del: digit_of.simps)
    have ok: "fst ?a" using Cons.prems(1) unfolding res by (cases "fst ?a") simp_all
    then have rest: "assign_items po (snd ?a) items = Some v'" using Cons.prems(1) unfolding res by simp
    have ne1: "snd ?a t \<noteq> []" for t
      using keeps_nonempty_all(2) [OF ok] Cons.prems(4) [of t] unfolding keeps_nonempty_def by blast
    show ?thesis
    proof (cases "(s, ch) \<in> set items")
      case True
      then show ?thesis using Cons.IH [OF rest _ Cons.prems(3)] ne1 by blast
    next
      case False
      then have eq: "s0 = s" "d0 = d" using Cons.prems(2,3) item Some by auto
      have "set (snd ?a s) = {d}"
        using assign_fixes [OF ok Cons.prems(4)] eq by simp
      moreover have "set (v' s) \<subseteq> set (snd ?a s)"
        by (rule shrinks_set [OF assign_items_shrinks [OF rest]])
      moreover have "v' s \<noteq> []"
        using assign_items_keeps_nonempty [OF rest] ne1 [of s] unfolding keeps_nonempty_def by blast
      ultimately show ?thesis by (cases "v' s") auto
    qed
  qed
qed

lemma peer_clash_fails:
  assumes cov: "covers_peers po"
    and s1: "(s1, ch) \<in> set items" and s2: "(s2, ch) \<in> set items"
    and p: "s2 \<in> peers s1" and d: "digit_of ch = Some d"
  shows "assign_items po store0 items = None"
proof (cases "assign_items po store0 items")
  case None
  then show ?thesis .
next
  case (Some v')
  have ne: "store0 t \<noteq> []" for t by (simp add: store0_def digits_def)
  have f1: "set (v' s1) = {d}" by (rule assign_items_fixes [OF Some s1 d ne])
  have f2: "set (v' s2) = {d}" by (rule assign_items_fixes [OF Some s2 d ne])
  have "subseq (v' s1) (store0 s1)" by (rule shrinks_subseq [OF assign_items_shrinks [OF Some]])
  moreover have "distinct (store0 s1)" by (simp add: store0_def digits_def)
  ultimately have "distinct (v' s1)" by (rule subseq_distinct)
  then have l: "v' s1 = [d]" using f1 by (cases "v' s1"; cases "tl (v' s1)") auto
  have "length (store0 s1) \<noteq> 1" by (simp add: store0_def digits_def)
  then have "peers_free v' s1"
    using assign_items_settles [OF cov Some] unfolding settles_def by blast
  then have "d \<notin> set (v' s2)" using l p unfolding peers_free_def by simp
  then show ?thesis using f2 by simp
qed

text \<open>
  Claim C5. A puzzle in which two squares of one row carry the same digit fails in
  \<open>parse_grid\<close>: the assignments of the clues meet a contradiction, \<open>parse_grid\<close> returns
  \<^verbatim>\<open>False\<close>, and \<open>solve\<close> hands it to \<open>search\<close>, which returns \<^verbatim>\<open>False\<close> at once, at any
  depth allowed, so without branching.
\<close>

theorem duplicate_in_row_fails:
  assumes "covers_peers po"
    and "grid_values grid = Inr items"
    and "((r, c1), ch) \<in> set items" and "((r, c2), ch) \<in> set items"
    and "c1 \<noteq> c2" and "digit_of ch \<noteq> None"
  shows "parse_grid po grid = Inr None \<and> solve n po grid = Some (Inr None)"
proof -
  obtain d where d: "digit_of ch = Some d" using assms(6) by blast
  have "assign_items po store0 items = None"
    by (rule peer_clash_fails [OF assms(1) assms(3) assms(4) same_row_peers [OF assms(5)] d])
  then have "parse_grid po grid = Inr None" using assms(2) by (simp add: parse_grid_def)
  then show ?thesis by (simp add: solve_def)
qed

lemma covers_peers_list: "covers_peers peers_list"
  by (auto simp: covers_peers_def peers_list_def peers_def)

theorem duplicate_in_row_fails_witness:
  "covers_peers peers_list
   \<and> grid_values (''11'' @ replicate 79 CHR ''.'') = Inr (zip squares (''11'' @ replicate 79 CHR ''.''))
   \<and> ((RA, D1), CHR ''1'') \<in> set (zip squares (''11'' @ replicate 79 CHR ''.''))
   \<and> ((RA, D2), CHR ''1'') \<in> set (zip squares (''11'' @ replicate 79 CHR ''.''))
   \<and> D1 \<noteq> D2 \<and> digit_of CHR ''1'' \<noteq> None
   \<and> parse_grid peers_list (''11'' @ replicate 79 CHR ''.'') = Inr None
   \<and> solve 0 peers_list (''11'' @ replicate 79 CHR ''.'') = Some (Inr None)"
proof -
  have g: "grid_values (''11'' @ replicate 79 CHR ''.'') = Inr (zip squares (''11'' @ replicate 79 CHR ''.''))"
    by (simp add: grid_values_def)
  have a: "((RA, D1), CHR ''1'') \<in> set (zip squares (''11'' @ replicate 79 CHR ''.''))"
    by (simp add: squares_def cross_def rows_def cols_def digits_def)
  have b: "((RA, D2), CHR ''1'') \<in> set (zip squares (''11'' @ replicate 79 CHR ''.''))"
    by (simp add: squares_def cross_def rows_def cols_def digits_def)
  have n: "D1 \<noteq> D2" by simp
  have c: "digit_of CHR ''1'' \<noteq> None" by simp
  show ?thesis
    using covers_peers_list g a b n c
      duplicate_in_row_fails [OF covers_peers_list g a b n c, of 0]
    by blast
qed

section \<open>Malformed input\<close>

lemma grid_values_malformed:
  "length (filter (\<lambda>c. digit_of c \<noteq> None \<or> c \<in> set ''0.'') grid) \<noteq> 81
     \<Longrightarrow> grid_values grid = Inl AssertionError"
  by (simp add: grid_values_def Let_def)

text \<open>
  Claim C6. A raw input whose admissible characters (the digits \<^verbatim>\<open>1\<close> to \<^verbatim>\<open>9\<close>, \<^verbatim>\<open>0\<close> and
  \<^verbatim>\<open>.\<close>) are not exactly 81 in number, once every other character is filtered out, is
  rejected by the assertion of \<open>grid_values\<close>: \<open>parse_grid\<close> and \<open>solve\<close> end with
  \<open>AssertionError\<close>, a result distinct from the contradiction \<^verbatim>\<open>False\<close> and from a
  dictionary, whatever the order of the peers and the depth allowed to the search, so
  before any assignment or search step.
\<close>

theorem malformed_input_rejected:
  assumes "length (filter (\<lambda>c. digit_of c \<noteq> None \<or> c \<in> set ''0.'') grid) \<noteq> 81"
  shows "grid_values grid = Inl AssertionError
       \<and> parse_grid po grid = Inl AssertionError
       \<and> solve n po grid = Some (Inl AssertionError)"
  using grid_values_malformed [OF assms] by (simp add: parse_grid_def solve_def)

theorem malformed_input_rejected_witness:
  "length (filter (\<lambda>c. digit_of c \<noteq> None \<or> c \<in> set ''0.'') (replicate 80 CHR ''0'')) \<noteq> 81
   \<and> grid_values (replicate 80 CHR ''0'') = Inl AssertionError
   \<and> parse_grid peers_list (replicate 80 CHR ''0'') = Inl AssertionError
   \<and> solve 0 peers_list (replicate 80 CHR ''0'') = Some (Inl AssertionError)"
proof -
  have h: "length (filter (\<lambda>c. digit_of c \<noteq> None \<or> c \<in> set ''0.'') (replicate 80 CHR ''0'')) \<noteq> 81"
    by simp
  show ?thesis
    using h malformed_input_rejected [OF h, of peers_list 0] by blast
qed

end
